theory Spec2Isabelle
  imports Main "HOL-Library.FSet"
begin

section \<open>Data model of the signaling relay\<close>

text \<open>
  The program is \<^verbatim>\<open>src/webrtc-stack/signaling/main.py\<close>: one module-level dictionary
  \<^verbatim>\<open>rooms: Dict[str, Set[WebSocket]]\<close> and one coroutine \<^verbatim>\<open>ws_endpoint(ws)\<close>
  that is started once for every WebSocket connection.

  A \<^verbatim>\<open>WebSocket\<close> object is compared by identity only (\<^verbatim>\<open>peer is not ws\<close>, and
  membership in a Python set of such objects), so a connection is modelled by its
  identity, a natural number.  A Python \<^verbatim>\<open>set\<close> is finite and holds an object at most
  once: it is a finite set.  The dictionary is a partial map.
\<close>

type_synonym conn = nat

type_synonym registry = "string \<rightharpoonup> conn fset"

text \<open>
  Exceptions are values.  \<^verbatim>\<open>WebSocketDisconnect\<close> is the one exception class the source
  names; \<^verbatim>\<open>KeyError\<close> is what \<^verbatim>\<open>rooms[room]\<close> and \<^verbatim>\<open>set.remove\<close> raise on a missing
  key or element; every other subclass of \<^verbatim>\<open>Exception\<close> is \<open>OtherException\<close> with the
  name of its class.  What is not an \<^verbatim>\<open>Exception\<close> (the cancellation of a task, the
  exit of the interpreter) ends the program or the task from outside and is not
  modelled.
\<close>

datatype exn = WebSocketDisconnect | KeyError | OtherException string

subsection \<open>The dictionary and set primitives the source uses\<close>

text \<open>\<^verbatim>\<open>rooms[room]\<close> as an expression: raises \<^verbatim>\<open>KeyError\<close> for a missing key.\<close>

definition dict_getitem :: "registry \<Rightarrow> string \<Rightarrow> exn + conn fset" where
  "dict_getitem rooms room = (case rooms room of None \<Rightarrow> Inl KeyError | Some s \<Rightarrow> Inr s)"

text \<open>\<^verbatim>\<open>s.remove(ws)\<close>: raises \<^verbatim>\<open>KeyError\<close> when the element is not in the set.\<close>

definition set_remove :: "conn fset \<Rightarrow> conn \<Rightarrow> exn + conn fset" where
  "set_remove s ws = (if ws |\<in>| s then Inr (s |-| {|ws|}) else Inl KeyError)"

subsection \<open>Registry operations (the three blocks of \<^verbatim>\<open>ws_endpoint\<close> that touch \<^verbatim>\<open>rooms\<close>)\<close>

text \<open>
  Lines 31 to 33:
  \<^verbatim>\<open>
    if room not in rooms:
        rooms[room] = set()
    rooms[room].add(ws)
  \<close>
  The set object stored in the dictionary is mutated in place, so the dictionary maps
  the room to the enlarged set afterwards.
\<close>

definition join :: "registry \<Rightarrow> string \<Rightarrow> conn \<Rightarrow> exn + registry" where
  "join rooms room ws =
     (let rooms1 = (if rooms room = None then rooms(room \<mapsto> {||}) else rooms)
      in case dict_getitem rooms1 room of
           Inl e \<Rightarrow> Inl e
         | Inr s \<Rightarrow> Inr (rooms1(room \<mapsto> finsert ws s)))"

text \<open>
  Lines 53 and 54, the body of the \<^verbatim>\<open>finally\<close> clause:
  \<^verbatim>\<open>
    if room in rooms and ws in rooms[room]:
        rooms[room].remove(ws)
  \<close>
  \<^verbatim>\<open>and\<close> evaluates its right operand only when the left one is true.
\<close>

definition leave :: "registry \<Rightarrow> string \<Rightarrow> conn \<Rightarrow> exn + registry" where
  "leave rooms room ws =
     (if rooms room \<noteq> None then
        (case dict_getitem rooms room of
           Inl e \<Rightarrow> Inl e
         | Inr s \<Rightarrow>
             if ws |\<in>| s then
               (case dict_getitem rooms room of
                  Inl e \<Rightarrow> Inl e
                | Inr s1 \<Rightarrow>
                    (case set_remove s1 ws of
                       Inl e \<Rightarrow> Inl e
                     | Inr s2 \<Rightarrow> Inr (rooms(room \<mapsto> s2))))
             else Inr rooms)
      else Inr rooms)"

text \<open>
  \<^verbatim>\<open>rooms.get(room, [])\<close> read as a collection of members: the room's set, or the
  empty default for a room that is not a key.
\<close>

definition members :: "registry \<Rightarrow> string \<Rightarrow> conn fset" where
  "members rooms room = (case rooms room of None \<Rightarrow> {||} | Some s \<Rightarrow> s)"

text \<open>
  Line 41, \<^verbatim>\<open>list(rooms.get(room, []))\<close>: a list copy of the member set.  Python does
  not specify the order in which a set is iterated, so the function \<open>py_list\<close> that
  lists a set is a parameter; \<open>list_ok\<close> says what every such listing satisfies: each
  element of the set occurs in the list exactly once and nothing else does.
\<close>

definition snapshot :: "(conn fset \<Rightarrow> conn list) \<Rightarrow> registry \<Rightarrow> string \<Rightarrow> conn list" where
  "snapshot py_list rooms room = (case rooms room of None \<Rightarrow> [] | Some s \<Rightarrow> py_list s)"

definition list_ok :: "(conn fset \<Rightarrow> conn list) \<Rightarrow> bool" where
  "list_ok py_list \<longleftrightarrow> (\<forall>S. distinct (py_list S) \<and> fset_of_list (py_list S) = S)"

section \<open>The coroutine \<^verbatim>\<open>ws_endpoint\<close> as a transition system\<close>

text \<open>
  \<^verbatim>\<open>ws_endpoint\<close> is an \<^verbatim>\<open>async\<close> function: it runs without interruption from one
  \<^verbatim>\<open>await\<close> to the next, and while it waits the coroutines of the other connections
  run on the same dictionary.  It waits at three places: \<^verbatim>\<open>await ws.accept()\<close>
  (line 28), \<^verbatim>\<open>await ws.receive_text()\<close> (line 38) and \<^verbatim>\<open>await peer.send_text(msg)\<close>
  (line 44).  A \<open>task\<close> is the place where the coroutine of one connection stands,
  with the local variables that are live there.
\<close>

datatype task =
    Accepting string
  | Receiving string
  | Sending string string conn "conn list"
  | Returned
  | Raised exn

text \<open>
  \<open>Accepting room\<close>: waiting in line 28; \<open>Receiving room\<close>: waiting in line 38;
  \<open>Sending room msg peer peers\<close>: waiting in line 44 for the send to \<open>peer\<close>, with
  \<open>peers\<close> the part of the list of line 41 that the \<^verbatim>\<open>for\<close> loop has not visited;
  \<open>Returned\<close>: the coroutine returned; \<open>Raised e\<close>: it ended with exception \<open>e\<close>.

  What the transport answers at an \<^verbatim>\<open>await\<close> is an event.  \<open>Connect ws params\<close>
  starts the coroutine for a new connection with the given query parameters;
  \<open>Accepted\<close>, \<open>Received\<close> and \<open>Sent\<close> complete the pending \<^verbatim>\<open>await\<close> of the
  coroutine of \<open>ws\<close>, with the exception raised there if any.
\<close>

datatype event =
    Connect conn "string \<rightharpoonup> string"
  | Accepted conn "exn option"
  | Received conn "exn + string"
  | Sent conn "exn option"

text \<open>
  The trace records, in order, what the coroutines did: \<open>Joined ws room\<close> for lines 31
  to 33, \<open>Send ws peer msg r\<close> for one completed call \<^verbatim>\<open>peer.send_text(msg)\<close> made by
  the coroutine of \<open>ws\<close> (\<open>r = None\<close> when the call returned, \<open>Some e\<close> when it raised
  \<open>e\<close>), and \<open>Cleanup ws room\<close> for one execution of the \<^verbatim>\<open>finally\<close> clause.
\<close>

datatype obs =
    Joined conn string
  | Send conn conn string "exn option"
  | Cleanup conn string

record system =
  rooms :: registry
  tasks :: "conn \<rightharpoonup> task"
  trace :: "obs list"

definition init :: system where
  "init = \<lparr>rooms = Map.empty, tasks = Map.empty, trace = []\<rparr>"

text \<open>
  Line 27, \<^verbatim>\<open>room = ws.query_params.get("room", "default")\<close>.
\<close>

definition room_of_params :: "(string \<rightharpoonup> string) \<Rightarrow> string" where
  "room_of_params params = (case params ''room'' of None \<Rightarrow> ''default'' | Some r \<Rightarrow> r)"

text \<open>
  The \<^verbatim>\<open>for\<close> loop of lines 41 to 47, run from the entries \<open>peers\<close> of the list that are
  still to be visited up to the next \<^verbatim>\<open>await\<close>: the connection itself is skipped
  (\<^verbatim>\<open>if peer is not ws\<close>); at the first other entry the coroutine waits for the send;
  when the list is exhausted the \<^verbatim>\<open>while True\<close> loop goes back to line 38.
\<close>

fun forward :: "conn \<Rightarrow> string \<Rightarrow> string \<Rightarrow> conn list \<Rightarrow> task" where
  "forward ws room msg [] = Receiving room"
| "forward ws room msg (peer # peers) =
     (if peer \<noteq> ws then Sending room msg peer peers else forward ws room msg peers)"

text \<open>
  Lines 48 to 54, entered when \<^verbatim>\<open>ws.receive_text()\<close> raised \<open>e\<close>: the clause
  \<^verbatim>\<open>except WebSocketDisconnect: pass\<close> handles that one class, the \<^verbatim>\<open>finally\<close> clause
  runs in every case, and an exception that no clause handled is raised again after
  it.  An exception raised inside the \<^verbatim>\<open>finally\<close> clause would replace it.
\<close>

definition finish :: "conn \<Rightarrow> string \<Rightarrow> exn \<Rightarrow> system \<Rightarrow> system" where
  "finish ws room e s =
     (case leave (rooms s) room ws of
        Inl e1 \<Rightarrow>
          s\<lparr>tasks := (tasks s)(ws \<mapsto> Raised e1), trace := trace s @ [Cleanup ws room]\<rparr>
      | Inr rooms1 \<Rightarrow>
          s\<lparr>rooms := rooms1,
            tasks := (tasks s)(ws \<mapsto> (if e = WebSocketDisconnect then Returned else Raised e)),
            trace := trace s @ [Cleanup ws room]\<rparr>)"

text \<open>
  One event.  Each equation runs the coroutine from the \<^verbatim>\<open>await\<close> that the event
  completes to the next one.  A send that raised is caught by \<^verbatim>\<open>except Exception\<close>
  (line 45) and the loop goes on as after a send that returned (line 47,
  \<^verbatim>\<open>pass\<close>).  An exception of \<^verbatim>\<open>ws.accept()\<close> is raised outside the \<^verbatim>\<open>try\<close> statement
  and ends the coroutine at once.

  An event that does not complete the \<^verbatim>\<open>await\<close> at which the coroutine of its
  connection stands (or a \<open>Connect\<close> for a connection that already has a coroutine:
  the object of a new connection has an identity that no live object has) is not a
  behaviour of the program and leaves the state as it is.
\<close>

fun step :: "(conn fset \<Rightarrow> conn list) \<Rightarrow> event \<Rightarrow> system \<Rightarrow> system" where
  "step py_list (Connect ws params) s =
     (case tasks s ws of
        None \<Rightarrow> s\<lparr>tasks := (tasks s)(ws \<mapsto> Accepting (room_of_params params))\<rparr>
      | Some t \<Rightarrow> s)"
| "step py_list (Accepted ws r) s =
     (case tasks s ws of
        Some (Accepting room) \<Rightarrow>
          (case r of
             Some e \<Rightarrow> s\<lparr>tasks := (tasks s)(ws \<mapsto> Raised e)\<rparr>
           | None \<Rightarrow>
               (case join (rooms s) room ws of
                  Inl e \<Rightarrow> s\<lparr>tasks := (tasks s)(ws \<mapsto> Raised e)\<rparr>
                | Inr rooms1 \<Rightarrow>
                    s\<lparr>rooms := rooms1,
                      tasks := (tasks s)(ws \<mapsto> Receiving room),
                      trace := trace s @ [Joined ws room]\<rparr>))
      | _ \<Rightarrow> s)"
| "step py_list (Received ws r) s =
     (case tasks s ws of
        Some (Receiving room) \<Rightarrow>
          (case r of
             Inl e \<Rightarrow> finish ws room e s
           | Inr msg \<Rightarrow>
               s\<lparr>tasks := (tasks s)(ws \<mapsto> forward ws room msg (snapshot py_list (rooms s) room))\<rparr>)
      | _ \<Rightarrow> s)"
| "step py_list (Sent ws r) s =
     (case tasks s ws of
        Some (Sending room msg peer peers) \<Rightarrow>
          (case r of
             Some e \<Rightarrow>
               s\<lparr>tasks := (tasks s)(ws \<mapsto> forward ws room msg peers),
                 trace := trace s @ [Send ws peer msg (Some e)]\<rparr>
           | None \<Rightarrow>
               s\<lparr>tasks := (tasks s)(ws \<mapsto> forward ws room msg peers),
                 trace := trace s @ [Send ws peer msg None]\<rparr>)
      | _ \<Rightarrow> s)"

text \<open>A run of the system: the events of a schedule, one after the other.\<close>

fun run :: "(conn fset \<Rightarrow> conn list) \<Rightarrow> event list \<Rightarrow> system \<Rightarrow> system" where
  "run py_list [] s = s"
| "run py_list (ev # evs) s = run py_list evs (step py_list ev s)"

section \<open>Observing a run\<close>

text \<open>The connection whose coroutine an event resumes, and the one that made a trace entry.\<close>

fun owner :: "event \<Rightarrow> conn" where
  "owner (Connect ws params) = ws"
| "owner (Accepted ws r) = ws"
| "owner (Received ws r) = ws"
| "owner (Sent ws r) = ws"

fun actor :: "obs \<Rightarrow> conn" where
  "actor (Joined ws room) = ws"
| "actor (Send ws peer msg r) = ws"
| "actor (Cleanup ws room) = ws"

definition trace_of :: "conn \<Rightarrow> system \<Rightarrow> obs list" where
  "trace_of ws s = filter (\<lambda>ob. actor ob = ws) (trace s)"

text \<open>
  \<open>is_send_to b ob\<close>: the entry is a call \<^verbatim>\<open>b.send_text(...)\<close>; \<open>is_join room ob\<close>: it is
  a connection joining \<open>room\<close>.
\<close>

fun is_send_to :: "conn \<Rightarrow> obs \<Rightarrow> bool" where
  "is_send_to b (Send ws peer msg r) = (peer = b)"
| "is_send_to b (Joined ws room) = False"
| "is_send_to b (Cleanup ws room) = False"

fun is_join :: "string \<Rightarrow> obs \<Rightarrow> bool" where
  "is_join room (Joined ws r) = (r = room)"
| "is_join room (Send ws peer msg r) = False"
| "is_join room (Cleanup ws r) = False"

text \<open>
  The peers one broadcast pass of \<open>ws\<close> sends to: the entries of the list of line 41
  that pass the test \<^verbatim>\<open>peer is not ws\<close> of line 42, in the order of the list.
\<close>

definition targets :: "(conn fset \<Rightarrow> conn list) \<Rightarrow> registry \<Rightarrow> string \<Rightarrow> conn \<Rightarrow> conn list" where
  "targets py_list reg room ws = filter (\<lambda>peer. peer \<noteq> ws) (snapshot py_list reg room)"

section \<open>Example states\<close>

text \<open>
  Concrete runs from the initial state, used to instantiate the theorems below.  Sets
  are listed in increasing order of the identities here.  \<open>alpha_one\<close>: connection 1
  has joined room \<^verbatim>\<open>alpha\<close>; \<open>alpha_two\<close>: so has connection 2; \<open>alpha_three\<close>: and
  connection 3.  \<open>default_two\<close> is the state after connections 1 and 2 were set up
  with no query parameter at all.  \<open>two_rooms\<close> is a schedule in which connections 1
  and 3 join room \<^verbatim>\<open>alpha\<close>, connection 2 joins room \<^verbatim>\<open>beta\<close>, and connection 1
  relays one message.
\<close>

definition alpha :: "string \<rightharpoonup> string" where
  "alpha = [''room'' \<mapsto> ''alpha'']"

definition beta :: "string \<rightharpoonup> string" where
  "beta = [''room'' \<mapsto> ''beta'']"

definition alpha_one :: system where
  "alpha_one = run sorted_list_of_fset [Connect 1 alpha, Accepted 1 None] init"

definition alpha_two :: system where
  "alpha_two = run sorted_list_of_fset [Connect 2 alpha, Accepted 2 None] alpha_one"

definition alpha_three :: system where
  "alpha_three = run sorted_list_of_fset [Connect 3 alpha, Accepted 3 None] alpha_two"

definition default_two :: system where
  "default_two =
     run sorted_list_of_fset
       [Connect 1 Map.empty, Accepted 1 None, Connect 2 Map.empty, Accepted 2 None] init"

definition two_rooms :: "event list" where
  "two_rooms =
     [Connect 1 alpha, Accepted 1 None, Connect 2 beta, Accepted 2 None,
      Connect 3 alpha, Accepted 3 None, Received 1 (Inr ''hello''), Sent 1 None]"

section \<open>Consistency of a state\<close>

text \<open>
  \<open>joined s c room\<close>: the trace records that the coroutine of \<open>c\<close> ran lines 31 to 33
  for \<open>room\<close>.  A state is consistent when the dictionary, the tasks and the trace
  agree: every member of a room, every coroutine inside the loop and every peer that
  a pass still has to visit joined that room; a connection that joined has a coroutine
  that is past line 28; no connection joined two rooms; and every recorded send went
  from a connection to a peer that joined the same room.
\<close>

definition joined :: "system \<Rightarrow> conn \<Rightarrow> string \<Rightarrow> bool" where
  "joined s c room \<longleftrightarrow> Joined c room \<in> set (trace s)"

definition consistent :: "system \<Rightarrow> bool" where
  "consistent s \<longleftrightarrow>
     (\<forall>room c. c |\<in>| members (rooms s) room \<longrightarrow> joined s c room)
   \<and> (\<forall>c room. tasks s c = Some (Receiving room) \<longrightarrow> joined s c room)
   \<and> (\<forall>c room msg p ps. tasks s c = Some (Sending room msg p ps) \<longrightarrow>
         joined s c room \<and> joined s p room \<and> (\<forall>q \<in> set ps. joined s q room))
   \<and> (\<forall>c room. joined s c room \<longrightarrow>
         tasks s c \<noteq> None \<and> (\<forall>r. tasks s c \<noteq> Some (Accepting r)))
   \<and> (\<forall>c r1 r2. joined s c r1 \<longrightarrow> joined s c r2 \<longrightarrow> r1 = r2)
   \<and> (\<forall>a b msg r. Send a b msg r \<in> set (trace s) \<longrightarrow>
         (\<exists>room. joined s a room \<and> joined s b room))"

section \<open>The registry operations never raise\<close>

text \<open>
  Both blocks guard every access that could raise \<^verbatim>\<open>KeyError\<close>, so each of them always
  returns a dictionary: the one with the connection added to, or taken out of, the set
  of the room.
\<close>

lemma join_eq: "join reg room ws = Inr (reg(room \<mapsto> finsert ws (members reg room)))"
  by (cases "reg room") (simp_all add: join_def dict_getitem_def members_def)

lemma leave_eq:
  "leave reg room ws =
     Inr (case reg room of None \<Rightarrow> reg | Some s \<Rightarrow> reg(room \<mapsto> s |-| {|ws|}))"
proof (cases "reg room")
  case None
  then show ?thesis by (simp add: leave_def)
next
  case (Some s)
  show ?thesis
  proof (cases "ws |\<in>| s")
    case True
    with Some show ?thesis by (simp add: leave_def dict_getitem_def set_remove_def)
  next
    case False
    then have "s |-| {|ws|} = s" by auto
    with Some False have "reg(room \<mapsto> s |-| {|ws|}) = reg" by (simp add: fun_upd_idem)
    with Some False show ?thesis by (simp add: leave_def dict_getitem_def)
  qed
qed

lemma finish_eq:
  "finish ws room e s =
     s\<lparr>rooms := (case rooms s room of None \<Rightarrow> rooms s | Some S \<Rightarrow> (rooms s)(room \<mapsto> S |-| {|ws|})),
       tasks := (tasks s)(ws \<mapsto> (if e = WebSocketDisconnect then Returned else Raised e)),
       trace := trace s @ [Cleanup ws room]\<rparr>"
  by (simp add: finish_def leave_eq)

section \<open>Single events\<close>

text \<open>What an event does when it completes the \<^verbatim>\<open>await\<close> its coroutine stands at.\<close>

lemma step_Connect:
  "tasks s ws = None \<Longrightarrow>
     step L (Connect ws params) s = s\<lparr>tasks := (tasks s)(ws \<mapsto> Accepting (room_of_params params))\<rparr>"
  by (simp add: step.simps)

lemma step_Accepted_ok:
  "tasks s ws = Some (Accepting room) \<Longrightarrow>
     step L (Accepted ws None) s =
       s\<lparr>rooms := (rooms s)(room \<mapsto> finsert ws (members (rooms s) room)),
         tasks := (tasks s)(ws \<mapsto> Receiving room),
         trace := trace s @ [Joined ws room]\<rparr>"
  by (simp add: step.simps join_eq)

lemma step_Accepted_exn:
  "tasks s ws = Some (Accepting room) \<Longrightarrow>
     step L (Accepted ws (Some e)) s = s\<lparr>tasks := (tasks s)(ws \<mapsto> Raised e)\<rparr>"
  by (simp add: step.simps)

lemma step_Received_msg:
  "tasks s ws = Some (Receiving room) \<Longrightarrow>
     step L (Received ws (Inr msg)) s =
       s\<lparr>tasks := (tasks s)(ws \<mapsto> forward ws room msg (snapshot L (rooms s) room))\<rparr>"
  by simp

lemma step_Received_exn:
  "tasks s ws = Some (Receiving room) \<Longrightarrow> step L (Received ws (Inl e)) s = finish ws room e s"
  by simp

lemma step_Sent:
  "tasks s ws = Some (Sending room msg peer peers) \<Longrightarrow>
     step L (Sent ws r) s =
       s\<lparr>tasks := (tasks s)(ws \<mapsto> forward ws room msg peers),
         trace := trace s @ [Send ws peer msg r]\<rparr>"
  by (cases r) simp_all

text \<open>
  An event resumes the coroutine of its own connection only: the task of every other
  connection, and what that connection has added to the trace, stay as they are.
\<close>

lemma step_other_task:
  "owner ev \<noteq> ws \<Longrightarrow> tasks (step L ev s) ws = tasks s ws"
  by (cases ev)
     (auto simp: finish_def split: option.splits task.splits sum.splits)

lemma step_other_trace:
  "owner ev \<noteq> ws \<Longrightarrow> trace_of ws (step L ev s) = trace_of ws s"
  by (cases ev)
     (auto simp: finish_def trace_of_def split: option.splits task.splits sum.splits)

text \<open>
  A coroutine that has returned or raised takes no further step: every later event
  leaves its task and its part of the trace as they are.
\<close>

lemma step_ignored:
  "tasks s c = Some t \<Longrightarrow> t = Returned \<or> (\<exists>e. t = Raised e) \<Longrightarrow> owner ev = c \<Longrightarrow> step L ev s = s"
  by (cases ev) (auto simp: step.simps)

lemma step_terminal:
  assumes "tasks s c = Some t" and "t = Returned \<or> (\<exists>e. t = Raised e)"
  shows "tasks (step L ev s) c = Some t \<and> trace_of c (step L ev s) = trace_of c s"
proof (cases "owner ev = c")
  case True
  with assms have "step L ev s = s" by (rule step_ignored)
  with assms(1) show ?thesis by simp
next
  case False
  with assms(1) show ?thesis by (simp add: step_other_task step_other_trace)
qed

lemma run_terminal:
  "tasks s c = Some t \<Longrightarrow> t = Returned \<or> (\<exists>e. t = Raised e) \<Longrightarrow>
     tasks (run L evs s) c = Some t \<and> trace_of c (run L evs s) = trace_of c s"
proof (induction evs arbitrary: s)
  case Nil
  then show ?case by simp
next
  case (Cons ev evs)
  from step_terminal[OF Cons.prems, of L ev]
  have 1: "tasks (step L ev s) c = Some t" and 2: "trace_of c (step L ev s) = trace_of c s"
    by simp_all
  from Cons.IH[OF 1 Cons.prems(2)] 2 show ?case by simp
qed

declare step.simps [simp del]

section \<open>The list of line 41\<close>

text \<open>
  For every listing of sets that Python may use, the list holds the members of the room
  once each, and the peers of a pass are the members other than the sender.  Listing in
  increasing order is one such listing.
\<close>

lemma set_snapshot: "list_ok L \<Longrightarrow> set (snapshot L reg room) = fset (members reg room)"
proof -
  assume ok: "list_ok L"
  have "\<And>S. set (L S) = fset S"
  proof -
    fix S
    from ok have "fset_of_list (L S) = S" by (simp add: list_ok_def)
    then have "fset (fset_of_list (L S)) = fset S" by simp
    then show "set (L S) = fset S" by (simp add: fset_of_list.rep_eq)
  qed
  then show ?thesis by (simp add: snapshot_def members_def split: option.splits)
qed

lemma distinct_snapshot: "list_ok L \<Longrightarrow> distinct (snapshot L reg room)"
  by (simp add: snapshot_def list_ok_def split: option.splits)

lemma set_targets: "list_ok L \<Longrightarrow> set (targets L reg room ws) = fset (members reg room) - {ws}"
  by (auto simp: targets_def set_snapshot)

lemma distinct_targets: "list_ok L \<Longrightarrow> distinct (targets L reg room ws)"
  by (simp add: targets_def distinct_snapshot)

lemma targets_other_room: "r1 \<noteq> r2 \<Longrightarrow> targets L (reg(r1 \<mapsto> S)) r2 a = targets L reg r2 a"
  by (simp add: targets_def snapshot_def)

lemma list_ok_sorted: "list_ok sorted_list_of_fset"
proof -
  have "\<And>S :: conn fset. distinct (sorted_list_of_fset S)"
    by (simp add: sorted_list_of_fset.rep_eq)
  then show ?thesis by (simp add: list_ok_def)
qed

section \<open>One broadcast pass\<close>

text \<open>
  The \<^verbatim>\<open>for\<close> loop stops at the next entry that is not the sender, or falls through to
  line 38 when no such entry is left.
\<close>

lemma forward_no_targets:
  "filter (\<lambda>p. p \<noteq> ws) peers = [] \<Longrightarrow> forward ws room msg peers = Receiving room"
  by (induction peers) (auto split: if_splits)

lemma forward_target:
  "filter (\<lambda>p. p \<noteq> ws) peers = q # qs \<Longrightarrow>
     \<exists>rest. forward ws room msg peers = Sending room msg q rest \<and> filter (\<lambda>p. p \<noteq> ws) rest = qs"
  by (induction peers) (auto split: if_splits)

lemma forward_cases:
  "forward ws room msg peers = Receiving room \<or>
   (\<exists>p ps. forward ws room msg peers = Sending room msg p ps \<and> set (p # ps) \<subseteq> set peers)"
  by (induction peers) auto

text \<open>
  A pass of \<open>ws\<close>, interleaved with any events of other connections: if the events of
  \<open>ws\<close> itself are the completions \<open>outs\<close> of its sends, one for every peer, then \<open>ws\<close>
  has sent to the peers in order and waits in line 38 again.
\<close>

lemma pass_from_forward:
  "tasks s ws = Some (forward ws room msg peers) \<Longrightarrow>
   filter (\<lambda>ev. owner ev = ws) evs = map (Sent ws) outs \<Longrightarrow>
   length outs = length (filter (\<lambda>p. p \<noteq> ws) peers) \<Longrightarrow>
     tasks (run L evs s) ws = Some (Receiving room) \<and>
     trace_of ws (run L evs s) =
       trace_of ws s @ map2 (\<lambda>p r. Send ws p msg r) (filter (\<lambda>p. p \<noteq> ws) peers) outs"
proof (induction evs arbitrary: s peers outs)
  case Nil
  then have "filter (\<lambda>p. p \<noteq> ws) peers = []" by simp
  with Nil show ?case by (simp add: forward_no_targets)
next
  case (Cons ev evs)
  show ?case
  proof (cases "owner ev = ws")
    case False
    have t: "tasks (step L ev s) ws = Some (forward ws room msg peers)"
      using False Cons.prems(1) by (simp add: step_other_task)
    have f: "filter (\<lambda>ev. owner ev = ws) evs = map (Sent ws) outs"
      using False Cons.prems(2) by simp
    from Cons.IH[OF t f Cons.prems(3)] False show ?thesis
      by (simp add: step_other_trace)
  next
    case True
    with Cons.prems(2) obtain r outs1 where
      ev: "ev = Sent ws r" and outs: "outs = r # outs1"
      and f: "filter (\<lambda>ev. owner ev = ws) evs = map (Sent ws) outs1"
      by (cases outs) auto
    from outs Cons.prems(3) obtain q qs where
      qs: "filter (\<lambda>p. p \<noteq> ws) peers = q # qs" and len: "length outs1 = length qs"
      by (cases "filter (\<lambda>p. p \<noteq> ws) peers") auto
    from forward_target[OF qs] obtain rest where
      fw: "forward ws room msg peers = Sending room msg q rest"
      and rest: "filter (\<lambda>p. p \<noteq> ws) rest = qs" by blast
    let ?s1 = "step L ev s"
    have s1: "?s1 = s\<lparr>tasks := (tasks s)(ws \<mapsto> forward ws room msg rest),
         trace := trace s @ [Send ws q msg r]\<rparr>"
      using Cons.prems(1) fw ev by (simp add: step_Sent)
    have t: "tasks ?s1 ws = Some (forward ws room msg rest)" by (simp add: s1)
    have tr: "trace_of ws ?s1 = trace_of ws s @ [Send ws q msg r]"
      by (simp add: s1 trace_of_def)
    from len rest have len1: "length outs1 = length (filter (\<lambda>p. p \<noteq> ws) rest)" by simp
    from Cons.IH[OF t f len1] tr rest qs outs show ?thesis by simp
  qed
qed

lemma pass_interleaved:
  assumes "tasks s ws = Some (Receiving room)"
    and "filter (\<lambda>ev. owner ev = ws) evs = map (Sent ws) outs"
    and "length outs = length (targets L (rooms s) room ws)"
  shows "tasks (run L (Received ws (Inr msg) # evs) s) ws = Some (Receiving room)"
    and "trace_of ws (run L (Received ws (Inr msg) # evs) s) =
           trace_of ws s @ map2 (\<lambda>p r. Send ws p msg r) (targets L (rooms s) room ws) outs"
proof -
  let ?s1 = "step L (Received ws (Inr msg)) s"
  have s1: "?s1 = s\<lparr>tasks := (tasks s)(ws \<mapsto> forward ws room msg (snapshot L (rooms s) room))\<rparr>"
    using assms(1) by (rule step_Received_msg)
  have t: "tasks ?s1 ws = Some (forward ws room msg (snapshot L (rooms s) room))"
    by (simp add: s1)
  have tr: "trace_of ws ?s1 = trace_of ws s" by (simp add: s1 trace_of_def)
  have len: "length outs = length (filter (\<lambda>p. p \<noteq> ws) (snapshot L (rooms s) room))"
    using assms(3) by (simp add: targets_def)
  from pass_from_forward[OF t assms(2) len] tr
  show "tasks (run L (Received ws (Inr msg) # evs) s) ws = Some (Receiving room)"
    and "trace_of ws (run L (Received ws (Inr msg) # evs) s) =
           trace_of ws s @ map2 (\<lambda>p r. Send ws p msg r) (targets L (rooms s) room ws) outs"
    by (simp_all add: targets_def)
qed

text \<open>Counting the sends that go to one connection.\<close>

lemma sends_to_absent:
  "length ps = length rs \<Longrightarrow> b \<notin> set ps \<Longrightarrow>
     filter (is_send_to b) (map2 (\<lambda>p r. Send a p msg r) ps rs) = []"
  by (induction ps rs rule: list_induct2) auto

lemma sends_to_present:
  "length ps = length rs \<Longrightarrow> distinct ps \<Longrightarrow> b \<in> set ps \<Longrightarrow>
     \<exists>r \<in> set rs. filter (is_send_to b) (map2 (\<lambda>p r. Send a p msg r) ps rs) = [Send a b msg r]"
proof (induction ps rs rule: list_induct2)
  case Nil
  then show ?case by simp
next
  case (Cons p ps r rs)
  show ?case
  proof (cases "p = b")
    case True
    with Cons.prems have "b \<notin> set ps" by simp
    with Cons.hyps True show ?thesis by (simp add: sends_to_absent)
  next
    case False
    with Cons show ?thesis by auto
  qed
qed


lemma pass_reaches_member:
  assumes ok: "list_ok L"
    and t: "tasks s a = Some (Receiving room)"
    and b: "b |\<in>| members (rooms s) room" and ab: "a \<noteq> b"
    and evs: "filter (\<lambda>ev. owner ev = a) evs = map (Sent a) outs"
    and len: "length outs = length (targets L (rooms s) room a)"
  shows "\<exists>new. trace_of a (run L (Received a (Inr msg) # evs) s) = trace_of a s @ new
           \<and> (\<exists>r \<in> set outs. filter (is_send_to b) new = [Send a b msg r])
           \<and> filter (is_send_to a) new = []"
proof -
  let ?ts = "targets L (rooms s) room a"
  let ?new = "map2 (\<lambda>p r. Send a p msg r) ?ts outs"
  have 1: "trace_of a (run L (Received a (Inr msg) # evs) s) = trace_of a s @ ?new"
    using t evs len by (rule pass_interleaved(2))
  have "b \<in> set ?ts" using ok b ab by (simp add: set_targets)
  with len ok have 2: "\<exists>r \<in> set outs. filter (is_send_to b) ?new = [Send a b msg r]"
    using sends_to_present[of ?ts outs b a msg] by (simp add: distinct_targets)
  have "a \<notin> set ?ts" by (simp add: targets_def)
  with len have 3: "filter (is_send_to a) ?new = []"
    using sends_to_absent[of ?ts outs a a msg] by simp
  from 1 2 3 show ?thesis by blast
qed



text \<open>
  Claim C2.  In the same situation, let the transport answer the sends of the pass
  with any outcomes \<open>outs\<close>, exceptions included (line 45 catches every \<^verbatim>\<open>Exception\<close>
  and line 47 passes).  Then the coroutine of \<open>a\<close> has called \<^verbatim>\<open>send_text(msg)\<close> on every
  peer of the list of line 41, in the order of the list, each outcome recorded beside
  its peer; and when the pass is over the coroutine waits in line 38 for the next
  message: it has neither returned nor raised.  In the instance below connection 2
  disconnects while the pass of connection 1 is under way and the send to it fails;
  connection 3 is sent to all the same.
\<close>

theorem send_failure_does_not_stop_pass:
  assumes "tasks s a = Some (Receiving room)"
    and "filter (\<lambda>ev. owner ev = a) evs = map (Sent a) outs"
    and "length outs = length (targets L (rooms s) room a)"
  shows "tasks (run L (Received a (Inr msg) # evs) s) a = Some (Receiving room)
       \<and> trace_of a (run L (Received a (Inr msg) # evs) s) =
           trace_of a s @ map2 (\<lambda>p r. Send a p msg r) (targets L (rooms s) room a) outs"
  using pass_interleaved[OF assms] by simp

theorem send_failure_does_not_stop_pass_witness:
  "tasks alpha_three 1 = Some (Receiving ''alpha'')
   \<and> filter (\<lambda>ev. owner ev = 1)
        [Received 2 (Inl WebSocketDisconnect), Sent 1 (Some (OtherException ''RuntimeError'')), Sent 1 None]
       = map (Sent 1) [Some (OtherException ''RuntimeError''), None]
   \<and> length [Some (OtherException ''RuntimeError''), None]
       = length (targets sorted_list_of_fset (rooms alpha_three) ''alpha'' 1)
   \<and> tasks (run sorted_list_of_fset
        [Received 1 (Inr ''hello''), Received 2 (Inl WebSocketDisconnect),
         Sent 1 (Some (OtherException ''RuntimeError'')), Sent 1 None] alpha_three) 1
       = Some (Receiving ''alpha'')
   \<and> trace_of 1 (run sorted_list_of_fset
        [Received 1 (Inr ''hello''), Received 2 (Inl WebSocketDisconnect),
         Sent 1 (Some (OtherException ''RuntimeError'')), Sent 1 None] alpha_three)
       = trace_of 1 alpha_three
         @ [Send 1 2 ''hello'' (Some (OtherException ''RuntimeError'')), Send 1 3 ''hello'' None]"
proof -
  have 1: "tasks alpha_three 1 = Some (Receiving ''alpha'')" by code_simp
  have 2: "filter (\<lambda>ev. owner ev = 1)
        [Received 2 (Inl WebSocketDisconnect), Sent 1 (Some (OtherException ''RuntimeError'')), Sent 1 None]
       = map (Sent 1) [Some (OtherException ''RuntimeError''), None]" by simp
  have 3: "length [Some (OtherException ''RuntimeError''), None]
       = length (targets sorted_list_of_fset (rooms alpha_three) ''alpha'' 1)" by code_simp
  have 4: "targets sorted_list_of_fset (rooms alpha_three) ''alpha'' 1 = [2, 3]" by code_simp
  from send_failure_does_not_stop_pass[OF 1 2 3, of "''hello''"] 1 2 3 4 show ?thesis by simp
qed

text \<open>
  Claim C8.  When the room of \<open>a\<close> has no member other than \<open>a\<close> itself, the pass has no
  peer to send to, and the event of receiving a message leaves the whole state as it
  was: no trace entry (no send, no exception), the coroutine waits in line 38 again,
  and nothing of the message is kept anywhere.  Every later run is therefore the run
  that would have happened without the message: a connection that joins afterwards is
  not sent it.
\<close>

theorem lone_sender_pass_is_noop:
  assumes "list_ok L" and "tasks s a = Some (Receiving room)"
    and "members (rooms s) room |\<subseteq>| {|a|}"
  shows "targets L (rooms s) room a = [] \<and> step L (Received a (Inr msg)) s = s
       \<and> run L (Received a (Inr msg) # evs) s = run L evs s"
proof -
  have "set (targets L (rooms s) room a) = {}"
    using assms(1,3) by (auto simp: set_targets)
  then have t: "targets L (rooms s) room a = []" by simp
  then have "forward a room msg (snapshot L (rooms s) room) = Receiving room"
    by (simp add: targets_def forward_no_targets)
  with assms(2) have "step L (Received a (Inr msg)) s = s\<lparr>tasks := (tasks s)(a \<mapsto> Receiving room)\<rparr>"
    by (simp add: step_Received_msg)
  moreover have "(tasks s)(a \<mapsto> Receiving room) = tasks s"
    using assms(2) by (simp add: fun_upd_idem)
  ultimately show ?thesis using t by simp
qed

theorem lone_sender_pass_is_noop_witness:
  "list_ok sorted_list_of_fset \<and> tasks alpha_one 1 = Some (Receiving ''alpha'')
   \<and> members (rooms alpha_one) ''alpha'' |\<subseteq>| {|1|}
   \<and> targets sorted_list_of_fset (rooms alpha_one) ''alpha'' 1 = []
   \<and> step sorted_list_of_fset (Received 1 (Inr ''hello'')) alpha_one = alpha_one
   \<and> run sorted_list_of_fset [Received 1 (Inr ''hello''), Connect 2 alpha, Accepted 2 None] alpha_one
       = alpha_two"
proof -
  have 1: "list_ok sorted_list_of_fset" by (rule list_ok_sorted)
  have 2: "tasks alpha_one 1 = Some (Receiving ''alpha'')" by code_simp
  have 3: "members (rooms alpha_one) ''alpha'' |\<subseteq>| {|1|}" by code_simp
  from lone_sender_pass_is_noop[OF 1 2 3, of "''hello''" "[Connect 2 alpha, Accepted 2 None]"] 1 2 3
  show ?thesis by (simp add: alpha_two_def)
qed

text \<open>
  Claim C5.  For a room that is not a key of the dictionary, \<^verbatim>\<open>rooms.get(room, [])\<close>
  gives the empty default, so the list of line 41 is empty (where \<^verbatim>\<open>rooms[room]\<close>
  would raise \<^verbatim>\<open>KeyError\<close>); a coroutine that receives a message for such a room sends
  nothing and raises nothing: the state is unchanged.
\<close>

theorem unknown_room_pass_is_empty:
  assumes "reg room = None" and "rooms s room = None" and "tasks s a = Some (Receiving room)"
  shows "snapshot L reg room = [] \<and> members reg room = {||}
       \<and> dict_getitem reg room = Inl KeyError
       \<and> step L (Received a (Inr msg)) s = s"
proof -
  have "snapshot L (rooms s) room = []" using assms(2) by (simp add: snapshot_def)
  with assms(3) have "step L (Received a (Inr msg)) s = s\<lparr>tasks := (tasks s)(a \<mapsto> Receiving room)\<rparr>"
    by (simp add: step_Received_msg)
  moreover have "(tasks s)(a \<mapsto> Receiving room) = tasks s"
    using assms(3) by (simp add: fun_upd_idem)
  ultimately show ?thesis using assms(1) by (simp add: snapshot_def members_def dict_getitem_def)
qed

theorem unknown_room_pass_is_empty_witness:
  "(Map.empty :: registry) ''nowhere'' = None
   \<and> rooms \<lparr>rooms = Map.empty, tasks = [1 \<mapsto> Receiving ''nowhere''], trace = []\<rparr> ''nowhere'' = None
   \<and> tasks \<lparr>rooms = Map.empty, tasks = [1 \<mapsto> Receiving ''nowhere''], trace = []\<rparr> 1
        = Some (Receiving ''nowhere'')
   \<and> snapshot sorted_list_of_fset Map.empty ''nowhere'' = []
   \<and> step sorted_list_of_fset (Received 1 (Inr ''hello''))
        \<lparr>rooms = Map.empty, tasks = [1 \<mapsto> Receiving ''nowhere''], trace = []\<rparr>
       = \<lparr>rooms = Map.empty, tasks = [1 \<mapsto> Receiving ''nowhere''], trace = []\<rparr>"
  using unknown_room_pass_is_empty[of Map.empty "''nowhere''"
      "\<lparr>rooms = Map.empty, tasks = [1 \<mapsto> Receiving ''nowhere''], trace = []\<rparr>" 1
      sorted_list_of_fset "''hello''"]
  by simp

section \<open>Leaving a room\<close>

text \<open>
  Claim C6.  The block of lines 53 and 54 never raises.  It takes the connection out
  of the member set of the room and changes no other room; when the room is not a
  key, or the connection is not in its set, the dictionary is exactly what it was; and
  running the block a second time for the same room and connection changes nothing
  more.
\<close>

theorem leave_removes_and_is_idempotent:
  "\<exists>reg1. leave reg room ws = Inr reg1
     \<and> members reg1 room = members reg room |-| {|ws|}
     \<and> (\<forall>r. r \<noteq> room \<longrightarrow> reg1 r = reg r)
     \<and> (reg room = None \<or> ws |\<notin>| members reg room \<longrightarrow> reg1 = reg)
     \<and> leave reg1 room ws = Inr reg1"
proof (cases "reg room")
  case None
  then show ?thesis by (simp add: leave_eq members_def)
next
  case (Some s)
  let ?r1 = "reg(room \<mapsto> s |-| {|ws|})"
  have 1: "leave reg room ws = Inr ?r1" using Some by (simp add: leave_eq)
  have 2: "members ?r1 room = members reg room |-| {|ws|}" using Some by (simp add: members_def)
  have 3: "\<forall>r. r \<noteq> room \<longrightarrow> ?r1 r = reg r" by simp
  have 4: "reg room = None \<or> ws |\<notin>| members reg room \<longrightarrow> ?r1 = reg"
  proof
    assume "reg room = None \<or> ws |\<notin>| members reg room"
    with Some have "ws |\<notin>| s" by (simp add: members_def)
    then have "s |-| {|ws|} = s" by auto
    with Some show "?r1 = reg" by (simp add: fun_upd_idem)
  qed
  have 5: "leave ?r1 room ws = Inr ?r1" by (simp add: leave_eq)
  from 1 2 3 4 5 show ?thesis by blast
qed

theorem leave_removes_and_is_idempotent_witness:
  "(\<exists>reg1. leave [''alpha'' \<mapsto> {|1, 2|}] ''alpha'' 1 = Inr reg1
      \<and> members reg1 ''alpha'' = {|2|}
      \<and> reg1 ''beta'' = None
      \<and> leave reg1 ''alpha'' 1 = Inr reg1)
   \<and> [''alpha'' \<mapsto> {|2::conn|}] ''beta'' = None
   \<and> leave [''alpha'' \<mapsto> {|2|}] ''beta'' 1 = Inr [''alpha'' \<mapsto> {|2|}]
   \<and> 1 |\<notin>| members [''alpha'' \<mapsto> {|2|}] ''alpha''
   \<and> leave [''alpha'' \<mapsto> {|2|}] ''alpha'' 1 = Inr [''alpha'' \<mapsto> {|2|}]"
proof -
  have a: "members [''alpha'' \<mapsto> {|1, 2::conn|}] ''alpha'' |-| {|1|} = {|2|}"
    by (auto simp: members_def)
  from leave_removes_and_is_idempotent[of "[''alpha'' \<mapsto> {|1, 2|}]" "''alpha''" 1] a
  have 1: "\<exists>reg1. leave [''alpha'' \<mapsto> {|1, 2|}] ''alpha'' 1 = Inr reg1
      \<and> members reg1 ''alpha'' = {|2|}
      \<and> reg1 ''beta'' = None
      \<and> leave reg1 ''alpha'' 1 = Inr reg1"
    by auto
  have 2: "[''alpha'' \<mapsto> {|2::conn|}] ''beta'' = None" by simp
  from leave_removes_and_is_idempotent[of "[''alpha'' \<mapsto> {|2|}]" "''beta''" 1]
  have 3: "leave [''alpha'' \<mapsto> {|2|}] ''beta'' 1 = Inr [''alpha'' \<mapsto> {|2|}]"
    by auto
  have 4: "1 |\<notin>| members [''alpha'' \<mapsto> {|2|}] ''alpha''" by (simp add: members_def)
  from leave_removes_and_is_idempotent[of "[''alpha'' \<mapsto> {|2|}]" "''alpha''" 1] 4
  have 5: "leave [''alpha'' \<mapsto> {|2|}] ''alpha'' 1 = Inr [''alpha'' \<mapsto> {|2|}]"
    by auto
  from 1 2 3 4 5 show ?thesis by blast
qed

section \<open>Room keys are never deleted\<close>

text \<open>The dictionary never loses a key: no line of the program deletes one.\<close>

lemma step_keeps_keys: "rooms s room \<noteq> None \<Longrightarrow> rooms (step L ev s) room \<noteq> None"
  by (cases ev)
     (auto simp: step.simps finish_def join_eq leave_eq
           split: option.splits task.splits sum.splits)

lemma run_keeps_keys: "rooms s room \<noteq> None \<Longrightarrow> rooms (run L evs s) room \<noteq> None"
proof (induction evs arbitrary: s)
  case Nil
  then show ?case by simp
next
  case (Cons ev evs)
  from Cons.prems have "rooms (step L ev s) room \<noteq> None" by (rule step_keeps_keys)
  then have "rooms (run L evs (step L ev s)) room \<noteq> None" by (rule Cons.IH)
  then show ?case by simp
qed

text \<open>
  Every event appends to the trace, and the member set of a room grows only when the
  event appends an entry of a connection joining that room.
\<close>

lemma step_trace_members:
  "\<exists>new. trace (step L ev s) = trace s @ new
      \<and> (filter (is_join room) new = [] \<longrightarrow>
            members (rooms (step L ev s)) room |\<subseteq>| members (rooms s) room)"
proof (cases ev)
  case (Connect ws params)
  then show ?thesis by (cases "tasks s ws") (simp_all add: step.simps)
next
  case (Accepted ws r)
  show ?thesis
  proof (cases "\<exists>rm. tasks s ws = Some (Accepting rm)")
    case True
    then obtain rm where t: "tasks s ws = Some (Accepting rm)" by blast
    show ?thesis
    proof (cases r)
      case None
      with t show ?thesis unfolding Accepted
        by (auto simp: step_Accepted_ok members_def)
    next
      case (Some e)
      with t show ?thesis unfolding Accepted by (simp add: step_Accepted_exn)
    qed
  next
    case False
    then have "step L (Accepted ws r) s = s"
      by (auto simp: step.simps split: option.splits task.splits)
    then show ?thesis unfolding Accepted by simp
  qed
next
  case (Received ws r)
  show ?thesis
  proof (cases "\<exists>rm. tasks s ws = Some (Receiving rm)")
    case True
    then obtain rm where t: "tasks s ws = Some (Receiving rm)" by blast
    show ?thesis
    proof (cases r)
      case (Inl e)
      with t show ?thesis unfolding Received
        by (auto simp: step_Received_exn finish_eq members_def split: option.splits)
    next
      case (Inr msg)
      with t show ?thesis unfolding Received by (simp add: step_Received_msg)
    qed
  next
    case False
    then have "step L (Received ws r) s = s"
      by (auto simp: step.simps split: option.splits task.splits)
    then show ?thesis unfolding Received by simp
  qed
next
  case (Sent ws r)
  show ?thesis
  proof (cases "\<exists>rm msg peer peers. tasks s ws = Some (Sending rm msg peer peers)")
    case True
    then obtain rm msg peer peers where t: "tasks s ws = Some (Sending rm msg peer peers)"
      by blast
    then show ?thesis unfolding Sent by (simp add: step_Sent)
  next
    case False
    then have "step L (Sent ws r) s = s"
      by (auto simp: step.simps split: option.splits task.splits)
    then show ?thesis unfolding Sent by simp
  qed
qed

lemma run_trace_members:
  "\<exists>new. trace (run L evs s) = trace s @ new
      \<and> (filter (is_join room) new = [] \<longrightarrow>
            members (rooms (run L evs s)) room |\<subseteq>| members (rooms s) room)"
proof (induction evs arbitrary: s)
  case Nil
  then show ?case by simp
next
  case (Cons ev evs)
  from step_trace_members[of L ev s room] obtain n1 where
    1: "trace (step L ev s) = trace s @ n1"
    and 2: "filter (is_join room) n1 = [] \<longrightarrow>
            members (rooms (step L ev s)) room |\<subseteq>| members (rooms s) room" by blast
  from Cons.IH[of "step L ev s"] obtain n2 where
    3: "trace (run L evs (step L ev s)) = trace (step L ev s) @ n2"
    and 4: "filter (is_join room) n2 = [] \<longrightarrow>
            members (rooms (run L evs (step L ev s))) room |\<subseteq>| members (rooms (step L ev s)) room"
    by blast
  have "trace (run L (ev # evs) s) = trace s @ (n1 @ n2)" using 1 3 by simp
  moreover have "filter (is_join room) (n1 @ n2) = [] \<longrightarrow>
            members (rooms (run L (ev # evs) s)) room |\<subseteq>| members (rooms s) room"
    using 2 4 by auto
  ultimately show ?case by blast
qed

lemma empty_room_stays_empty:
  assumes "rooms s room = Some {||}"
    and "filter (is_join room) (trace (run L evs s)) = filter (is_join room) (trace s)"
  shows "rooms (run L evs s) room = Some {||}"
proof -
  from run_trace_members[of L evs s room] obtain new where
    1: "trace (run L evs s) = trace s @ new"
    and 2: "filter (is_join room) new = [] \<longrightarrow>
            members (rooms (run L evs s)) room |\<subseteq>| members (rooms s) room" by blast
  from assms(2) 1 have "filter (is_join room) new = []" by simp
  with 2 assms(1) have m: "members (rooms (run L evs s)) room = {||}" by (simp add: members_def)
  from assms(1) have "rooms (run L evs s) room \<noteq> None" by (simp add: run_keeps_keys)
  with m show ?thesis by (auto simp: members_def)
qed

text \<open>
  Claim C10.  For a room that is a key, the block of lines 53 and 54 returns the
  dictionary with that one entry replaced by the set without the connection, and so
  does the \<^verbatim>\<open>finally\<close> clause as a whole; the key itself stays, and it is still a key
  after any further run of the system.  When the connection was the last member, the
  room is mapped to the empty set from then on, for as long as no connection joins it.
\<close>

theorem leave_keeps_room_key:
  assumes "rooms s room = Some S"
  shows "leave (rooms s) room ws = Inr ((rooms s)(room \<mapsto> S |-| {|ws|}))
       \<and> rooms (finish ws room e s) = (rooms s)(room \<mapsto> S |-| {|ws|})
       \<and> rooms (run L evs s) room \<noteq> None
       \<and> (S |\<subseteq>| {|ws|}
            \<and> filter (is_join room) (trace (run L evs (finish ws room e s)))
                = filter (is_join room) (trace (finish ws room e s))
          \<longrightarrow> rooms (run L evs (finish ws room e s)) room = Some {||})"
proof -
  have 1: "leave (rooms s) room ws = Inr ((rooms s)(room \<mapsto> S |-| {|ws|}))"
    using assms by (simp add: leave_eq)
  have 2: "rooms (finish ws room e s) = (rooms s)(room \<mapsto> S |-| {|ws|})"
    by (simp add: finish_def 1)
  have 3: "rooms (run L evs s) room \<noteq> None" using assms by (simp add: run_keeps_keys)
  have 4: "rooms (run L evs (finish ws room e s)) room = Some {||}"
    if sub: "S |\<subseteq>| {|ws|}"
      and nj: "filter (is_join room) (trace (run L evs (finish ws room e s)))
                = filter (is_join room) (trace (finish ws room e s))"
  proof -
    from sub have "S |-| {|ws|} = {||}" by simp
    with 2 have "rooms (finish ws room e s) room = Some {||}" by simp
    then show ?thesis using nj by (rule empty_room_stays_empty)
  qed
  from 1 2 3 4 show ?thesis by blast
qed

theorem leave_keeps_room_key_witness:
  "rooms alpha_one ''alpha'' = Some {|1|}
   \<and> leave (rooms alpha_one) ''alpha'' 1 = Inr ((rooms alpha_one)(''alpha'' \<mapsto> {||}))
   \<and> rooms (finish 1 ''alpha'' WebSocketDisconnect alpha_one) ''alpha'' = Some {||}
   \<and> rooms (run sorted_list_of_fset
        [Received 1 (Inl WebSocketDisconnect), Connect 2 alpha, Accepted 2 None] alpha_one) ''alpha''
       \<noteq> None
   \<and> {|1|} |\<subseteq>| {|1::conn|}
   \<and> filter (is_join ''alpha'') (trace (run sorted_list_of_fset
          [Connect 2 beta, Accepted 2 None, Received 2 (Inr ''ping'')]
          (finish 1 ''alpha'' WebSocketDisconnect alpha_one)))
       = filter (is_join ''alpha'') (trace (finish 1 ''alpha'' WebSocketDisconnect alpha_one))
   \<and> rooms (run sorted_list_of_fset
          [Connect 2 beta, Accepted 2 None, Received 2 (Inr ''ping'')]
          (finish 1 ''alpha'' WebSocketDisconnect alpha_one)) ''alpha'' = Some {||}"
proof -
  have 1: "rooms alpha_one ''alpha'' = Some {|1|}" by code_simp
  have 2: "filter (is_join ''alpha'') (trace (run sorted_list_of_fset
          [Connect 2 beta, Accepted 2 None, Received 2 (Inr ''ping'')]
          (finish 1 ''alpha'' WebSocketDisconnect alpha_one)))
       = filter (is_join ''alpha'') (trace (finish 1 ''alpha'' WebSocketDisconnect alpha_one))"
    by code_simp
  note a = leave_keeps_room_key[OF 1, of 1 WebSocketDisconnect sorted_list_of_fset
      "[Received 1 (Inl WebSocketDisconnect), Connect 2 alpha, Accepted 2 None]"]
  note b = leave_keeps_room_key[OF 1, of 1 WebSocketDisconnect sorted_list_of_fset
      "[Connect 2 beta, Accepted 2 None, Received 2 (Inr ''ping'')]"]
  from a have 3: "leave (rooms alpha_one) ''alpha'' 1 = Inr ((rooms alpha_one)(''alpha'' \<mapsto> {||}))"
    by simp
  from a have 4: "rooms (finish 1 ''alpha'' WebSocketDisconnect alpha_one) ''alpha'' = Some {||}"
    by simp
  from a have 5: "rooms (run sorted_list_of_fset
        [Received 1 (Inl WebSocketDisconnect), Connect 2 alpha, Accepted 2 None] alpha_one) ''alpha''
       \<noteq> None" by blast
  from b 2 have 6: "rooms (run sorted_list_of_fset
          [Connect 2 beta, Accepted 2 None, Received 2 (Inr ''ping'')]
          (finish 1 ''alpha'' WebSocketDisconnect alpha_one)) ''alpha'' = Some {||}"
    by blast
  from 1 2 3 4 5 6 show ?thesis by simp
qed

section \<open>The end of a coroutine\<close>

text \<open>
  Claim C3 as stated fails in its second half: a read error other than
  \<^verbatim>\<open>WebSocketDisconnect\<close> is not handled by line 48, so after the \<^verbatim>\<open>finally\<close> clause it
  leaves \<^verbatim>\<open>ws_endpoint\<close> as an exception, where a disconnect makes \<^verbatim>\<open>ws_endpoint\<close>
  return.
\<close>

theorem read_error_not_like_disconnect_counterexample:
  "tasks (run sorted_list_of_fset [Received 1 (Inl WebSocketDisconnect)] alpha_one) 1 = Some Returned
   \<and> tasks (run sorted_list_of_fset [Received 1 (Inl (OtherException ''RuntimeError''))] alpha_one) 1
       = Some (Raised (OtherException ''RuntimeError''))"
  by code_simp

text \<open>
  Claim C3, amended.  The \<^verbatim>\<open>while\<close> loop ends only when \<^verbatim>\<open>ws.receive_text()\<close> raises
  (a failed send is caught inside the loop, see C2).  Whatever the exception \<open>e\<close> is,
  and whatever events follow, the coroutine of \<open>c\<close> adds exactly one entry to the trace
  from then on, the one execution of its \<^verbatim>\<open>finally\<close> clause; the connection is out of
  the member set of its room, and the dictionary is the same as after a disconnect.
  The coroutine has returned when \<open>e\<close> is \<^verbatim>\<open>WebSocketDisconnect\<close> and has raised \<open>e\<close>
  otherwise.
\<close>

theorem read_failure_runs_cleanup_once:
  assumes "tasks s c = Some (Receiving room)"
  shows "trace_of c (run L (Received c (Inl e) # evs) s) = trace_of c s @ [Cleanup c room]
       \<and> tasks (run L (Received c (Inl e) # evs) s) c =
            Some (if e = WebSocketDisconnect then Returned else Raised e)
       \<and> members (rooms (step L (Received c (Inl e)) s)) room = members (rooms s) room |-| {|c|}
       \<and> rooms (step L (Received c (Inl e)) s) = rooms (step L (Received c (Inl WebSocketDisconnect)) s)"
proof -
  let ?s1 = "step L (Received c (Inl e)) s"
  let ?t = "if e = WebSocketDisconnect then Returned else Raised e"
  have s1: "?s1 = finish c room e s" using assms by (rule step_Received_exn)
  have t1: "tasks ?s1 c = Some ?t" by (simp add: s1 finish_eq)
  have tr1: "trace_of c ?s1 = trace_of c s @ [Cleanup c room]"
    by (simp add: s1 finish_eq trace_of_def)
  have fin: "?t = Returned \<or> (\<exists>e1. ?t = Raised e1)" by simp
  from run_terminal[OF t1 fin, of L evs] tr1
  have 1: "trace_of c (run L (Received c (Inl e) # evs) s) = trace_of c s @ [Cleanup c room]"
    and 2: "tasks (run L (Received c (Inl e) # evs) s) c = Some ?t"
    by simp_all
  have 3: "members (rooms ?s1) room = members (rooms s) room |-| {|c|}"
    by (simp add: s1 finish_eq members_def split: option.splits)
  have 4: "rooms ?s1 = rooms (step L (Received c (Inl WebSocketDisconnect)) s)"
    using assms by (simp add: step_Received_exn finish_eq)
  from 1 2 3 4 show ?thesis by simp
qed

theorem read_failure_runs_cleanup_once_witness:
  "tasks alpha_two 1 = Some (Receiving ''alpha'')
   \<and> trace_of 1 (run sorted_list_of_fset
        [Received 1 (Inl (OtherException ''RuntimeError'')), Received 1 (Inl WebSocketDisconnect),
         Received 2 (Inr ''ping'')] alpha_two)
       = trace_of 1 alpha_two @ [Cleanup 1 ''alpha'']
   \<and> tasks (run sorted_list_of_fset
        [Received 1 (Inl (OtherException ''RuntimeError'')), Received 1 (Inl WebSocketDisconnect),
         Received 2 (Inr ''ping'')] alpha_two) 1
       = Some (Raised (OtherException ''RuntimeError''))
   \<and> members (rooms (step sorted_list_of_fset (Received 1 (Inl (OtherException ''RuntimeError''))) alpha_two)) ''alpha''
       = members (rooms alpha_two) ''alpha'' |-| {|1|}"
proof -
  have 1: "tasks alpha_two 1 = Some (Receiving ''alpha'')" by code_simp
  note th = read_failure_runs_cleanup_once[OF 1, of sorted_list_of_fset "OtherException ''RuntimeError''"
      "[Received 1 (Inl WebSocketDisconnect), Received 2 (Inr ''ping'')]"]
  from th have 2: "trace_of 1 (run sorted_list_of_fset
        [Received 1 (Inl (OtherException ''RuntimeError'')), Received 1 (Inl WebSocketDisconnect),
         Received 2 (Inr ''ping'')] alpha_two)
       = trace_of 1 alpha_two @ [Cleanup 1 ''alpha'']" by blast
  from th have 3: "tasks (run sorted_list_of_fset
        [Received 1 (Inl (OtherException ''RuntimeError'')), Received 1 (Inl WebSocketDisconnect),
         Received 2 (Inr ''ping'')] alpha_two) 1
       = Some (Raised (OtherException ''RuntimeError''))" by simp
  from th have 4: "members (rooms (step sorted_list_of_fset (Received 1 (Inl (OtherException ''RuntimeError''))) alpha_two)) ''alpha''
       = members (rooms alpha_two) ''alpha'' |-| {|1|}" by blast
  from 1 2 3 4 show ?thesis by blast
qed

section \<open>Every reachable state is consistent\<close>

text \<open>
  The initial state is consistent, and each kind of step keeps a state consistent.
\<close>

lemma consistent_init: "consistent init"
  by (simp add: consistent_def init_def joined_def members_def)

lemma consistent_Connect:
  assumes "consistent s" and "tasks s ws = None"
  shows "consistent (s\<lparr>tasks := (tasks s)(ws \<mapsto> Accepting r)\<rparr>)"
  using assms unfolding consistent_def joined_def
  by (auto split: if_splits)

lemma consistent_Accepted_exn:
  assumes "consistent s" and "tasks s ws = Some (Accepting room)"
  shows "consistent (s\<lparr>tasks := (tasks s)(ws \<mapsto> Raised e)\<rparr>)"
  using assms unfolding consistent_def joined_def
  by (auto split: if_splits)

lemma consistent_Accepted_ok:
  assumes "consistent s" and "tasks s ws = Some (Accepting room)"
  shows "consistent (s\<lparr>rooms := (rooms s)(room \<mapsto> finsert ws (members (rooms s) room)),
         tasks := (tasks s)(ws \<mapsto> Receiving room),
         trace := trace s @ [Joined ws room]\<rparr>)"
  using assms unfolding consistent_def joined_def
  apply (intro conjI)
  subgoal by (auto simp: members_def split: if_splits)
  subgoal by (auto split: if_splits)
  subgoal by (auto split: if_splits)
  subgoal by (auto split: if_splits)
  subgoal by (auto split: if_splits)
  subgoal by (auto split: if_splits) blast+
  done

lemma consistent_forward:
  assumes c: "consistent s" and j: "joined s ws room"
    and ps: "\<forall>q \<in> set peers. joined s q room"
    and t: "tasks s ws = Some t0" "\<forall>r. t0 \<noteq> Accepting r"
  shows "consistent (s\<lparr>tasks := (tasks s)(ws \<mapsto> forward ws room msg peers)\<rparr>)"
proof -
  from forward_cases[of ws room msg peers]
  show ?thesis
  proof
    assume f: "forward ws room msg peers = Receiving room"
    show ?thesis
      using c j t unfolding f consistent_def joined_def
      by (auto split: if_splits)
  next
    assume "\<exists>p ps. forward ws room msg peers = Sending room msg p ps \<and> set (p # ps) \<subseteq> set peers"
    then obtain p ps1 where f: "forward ws room msg peers = Sending room msg p ps1"
      and sub: "set (p # ps1) \<subseteq> set peers" by blast
    from sub ps have pj: "joined s p room" and psj: "\<forall>q \<in> set ps1. joined s q room" by auto
    show ?thesis
      using c j t pj psj unfolding f consistent_def joined_def
      by (auto split: if_splits)
  qed
qed

lemma consistent_Received_msg:
  assumes "list_ok L" and "consistent s" and "tasks s ws = Some (Receiving room)"
  shows "consistent (s\<lparr>tasks := (tasks s)(ws \<mapsto> forward ws room msg (snapshot L (rooms s) room))\<rparr>)"
proof -
  from assms(2,3) have j: "joined s ws room" by (simp add: consistent_def)
  have ps: "\<forall>q \<in> set (snapshot L (rooms s) room). joined s q room"
    using assms(1,2) by (simp add: set_snapshot consistent_def)
  from consistent_forward[OF assms(2) j ps assms(3)] show ?thesis by simp
qed

lemma consistent_Send_entry:
  assumes "consistent s" and "joined s a room" and "joined s b room"
  shows "consistent (s\<lparr>trace := trace s @ [Send a b msg r]\<rparr>)"
  using assms unfolding consistent_def joined_def
  by (auto split: if_splits) blast+

lemma consistent_Sent:
  assumes "consistent s" and "tasks s ws = Some (Sending room msg peer peers)"
  shows "consistent (s\<lparr>tasks := (tasks s)(ws \<mapsto> forward ws room msg peers),
         trace := trace s @ [Send ws peer msg r]\<rparr>)"
proof -
  let ?s1 = "s\<lparr>tasks := (tasks s)(ws \<mapsto> forward ws room msg peers)\<rparr>"
  from assms have j: "joined s ws room" "joined s peer room" "\<forall>q \<in> set peers. joined s q room"
    by (auto simp: consistent_def)
  have c1: "consistent ?s1"
    using assms(1) j(1,3) assms(2) by (rule consistent_forward) simp
  have j1: "joined ?s1 ws room" "joined ?s1 peer room"
    using j by (simp_all add: joined_def)
  from consistent_Send_entry[OF c1 j1, of msg r] show ?thesis by simp
qed

lemma consistent_finish:
  assumes "consistent s" and "tasks s ws = Some (Receiving room)"
  shows "consistent (finish ws room e s)"
  using assms unfolding finish_eq consistent_def joined_def
  apply (intro conjI)
  subgoal by (auto simp: members_def split: if_splits option.splits)
  subgoal by (auto split: if_splits)
  subgoal by (auto split: if_splits)
  subgoal by (auto split: if_splits)
  subgoal by (auto split: if_splits)
  subgoal by (auto split: if_splits)
  done

lemma consistent_step:
  assumes "list_ok L" and "consistent s"
  shows "consistent (step L ev s)"
proof (cases ev)
  case (Connect ws params)
  show ?thesis
  proof (cases "tasks s ws")
    case None
    with assms(2) show ?thesis
      unfolding Connect by (simp add: step_Connect consistent_Connect)
  next
    case (Some t)
    with assms(2) show ?thesis unfolding Connect by (simp add: step.simps)
  qed
next
  case (Accepted ws r)
  show ?thesis
  proof (cases "\<exists>room. tasks s ws = Some (Accepting room)")
    case True
    then obtain room where t: "tasks s ws = Some (Accepting room)" by blast
    show ?thesis
    proof (cases r)
      case None
      with assms(2) t show ?thesis
        unfolding Accepted by (simp add: step_Accepted_ok consistent_Accepted_ok)
    next
      case (Some e)
      with assms(2) t show ?thesis
        unfolding Accepted by (simp add: step_Accepted_exn consistent_Accepted_exn)
    qed
  next
    case False
    then have "step L (Accepted ws r) s = s"
      by (auto simp: step.simps split: option.splits task.splits)
    with assms(2) show ?thesis unfolding Accepted by simp
  qed
next
  case (Received ws r)
  show ?thesis
  proof (cases "\<exists>room. tasks s ws = Some (Receiving room)")
    case True
    then obtain room where t: "tasks s ws = Some (Receiving room)" by blast
    show ?thesis
    proof (cases r)
      case (Inl e)
      with assms(2) t show ?thesis
        unfolding Received by (simp add: step_Received_exn consistent_finish)
    next
      case (Inr msg)
      with assms t show ?thesis
        unfolding Received by (simp add: step_Received_msg consistent_Received_msg)
    qed
  next
    case False
    then have "step L (Received ws r) s = s"
      by (auto simp: step.simps split: option.splits task.splits)
    with assms(2) show ?thesis unfolding Received by simp
  qed
next
  case (Sent ws r)
  show ?thesis
  proof (cases "\<exists>room msg peer peers. tasks s ws = Some (Sending room msg peer peers)")
    case True
    then obtain room msg peer peers where t: "tasks s ws = Some (Sending room msg peer peers)"
      by blast
    with assms(2) show ?thesis
      unfolding Sent by (simp add: step_Sent consistent_Sent)
  next
    case False
    then have "step L (Sent ws r) s = s"
      by (auto simp: step.simps split: option.splits task.splits)
    with assms(2) show ?thesis unfolding Sent by simp
  qed
qed

lemma consistent_run: "list_ok L \<Longrightarrow> consistent s \<Longrightarrow> consistent (run L evs s)"
  by (induction evs arbitrary: s) (simp_all add: consistent_step)

lemma consistent_reachable: "list_ok L \<Longrightarrow> consistent (run L evs init)"
  by (simp add: consistent_run consistent_init)

text \<open>
  In particular a connection that has no coroutine yet is a member of no room: the
  object of a new connection is not in the dictionary.
\<close>

lemma new_connection_not_member:
  assumes "list_ok L" and "tasks (run L evs init) c = None"
  shows "c |\<notin>| members (rooms (run L evs init)) room"
proof
  let ?s = "run L evs init"
  assume "c |\<in>| members (rooms ?s) room"
  moreover have "consistent ?s" using assms(1) by (rule consistent_reachable)
  ultimately have "tasks ?s c \<noteq> None" unfolding consistent_def by blast
  with assms(2) show False by simp
qed

text \<open>
  Nor is the connection of a coroutine that waits in line 28, about to join.
\<close>

lemma accepting_not_member:
  assumes "list_ok L" and "tasks (run L evs init) c = Some (Accepting room)"
  shows "c |\<notin>| members (rooms (run L evs init)) r"
proof
  let ?s = "run L evs init"
  assume "c |\<in>| members (rooms ?s) r"
  moreover have "consistent ?s" using assms(1) by (rule consistent_reachable)
  ultimately have "tasks ?s c \<noteq> Some (Accepting room)" unfolding consistent_def by blast
  with assms(2) show False by simp
qed

section \<open>Joining and leaving at once\<close>

text \<open>
  On a set that does not hold the connection, \<^verbatim>\<open>remove\<close> undoes \<^verbatim>\<open>add\<close>.
\<close>

lemma join_then_leave_fresh:
  assumes "ws |\<notin>| members reg room"
  shows "leave (reg(room \<mapsto> finsert ws (members reg room))) room ws
           = Inr (reg(room \<mapsto> members reg room))"
proof -
  have "finsert ws (members reg room) |-| {|ws|} = members reg room"
    using assms by auto
  then show ?thesis by (simp add: leave_eq)
qed

lemma members_upd_same: "members (reg(room \<mapsto> members reg room)) r = members reg r"
  by (simp add: members_def)

text \<open>
  Claim C7.  Take any state that the program reaches from its start, and any
  connection \<open>c\<close> that is about to join a room \<open>room\<close> there (its coroutine waits in line
  28).  Lines 31 to 33 followed at once by lines 53 and 54 do not raise, and they are
  what the program runs when \<open>c\<close> is accepted and its first read fails, with a
  disconnect or any other exception \<open>e\<close>, before any message.  Afterwards the member set
  of \<open>room\<close>, and of every other room, is what it was before the join; in particular a
  member set that was empty is empty again.
\<close>

theorem join_then_leave_restores_members:
  assumes "list_ok L" and "tasks (run L evs init) c = Some (Accepting room)"
  shows "\<exists>reg1 reg2. join (rooms (run L evs init)) room c = Inr reg1
           \<and> leave reg1 room c = Inr reg2
           \<and> rooms (run L [Accepted c None, Received c (Inl e)] (run L evs init)) = reg2
           \<and> (\<forall>r. members reg2 r = members (rooms (run L evs init)) r)"
proof -
  let ?s = "run L evs init"
  let ?reg = "rooms ?s"
  let ?r1 = "?reg(room \<mapsto> finsert c (members ?reg room))"
  let ?r2 = "?reg(room \<mapsto> members ?reg room)"
  have fresh: "c |\<notin>| members ?reg room" using assms by (rule accepting_not_member)
  have 1: "join ?reg room c = Inr ?r1" by (rule join_eq)
  have 2: "leave ?r1 room c = Inr ?r2" using fresh by (rule join_then_leave_fresh)
  let ?a = "step L (Accepted c None) ?s"
  have a: "?a = ?s\<lparr>rooms := ?r1, tasks := (tasks ?s)(c \<mapsto> Receiving room),
                     trace := trace ?s @ [Joined c room]\<rparr>"
    using assms(2) by (rule step_Accepted_ok)
  have ta: "tasks ?a c = Some (Receiving room)" by (simp add: a)
  have "step L (Received c (Inl e)) ?a = finish c room e ?a"
    using ta by (rule step_Received_exn)
  moreover have "rooms (finish c room e ?a) = ?r2"
    using 2 by (simp add: finish_def a)
  ultimately have 3: "rooms (run L [Accepted c None, Received c (Inl e)] ?s) = ?r2" by simp
  have 4: "\<forall>r. members ?r2 r = members ?reg r" by (simp add: members_upd_same)
  from 1 2 3 4 show ?thesis by blast
qed

theorem join_then_leave_restores_members_witness:
  "list_ok sorted_list_of_fset
   \<and> tasks (run sorted_list_of_fset
        [Connect 1 alpha, Accepted 1 None, Connect 2 alpha, Accepted 2 None, Connect 3 alpha] init) 3
       = Some (Accepting ''alpha'')
   \<and> members (rooms (run sorted_list_of_fset
        [Connect 1 alpha, Accepted 1 None, Connect 2 alpha, Accepted 2 None, Connect 3 alpha] init))
        ''alpha'' = {|1, 2|}
   \<and> members (rooms (run sorted_list_of_fset [Accepted 3 None, Received 3 (Inl WebSocketDisconnect)]
        (run sorted_list_of_fset
          [Connect 1 alpha, Accepted 1 None, Connect 2 alpha, Accepted 2 None, Connect 3 alpha] init)))
        ''alpha'' = {|1, 2|}
   \<and> tasks (run sorted_list_of_fset [Connect 1 alpha] init) 1 = Some (Accepting ''alpha'')
   \<and> members (rooms (run sorted_list_of_fset [Connect 1 alpha] init)) ''alpha'' = {||}
   \<and> members (rooms (run sorted_list_of_fset [Accepted 1 None, Received 1 (Inl WebSocketDisconnect)]
        (run sorted_list_of_fset [Connect 1 alpha] init))) ''alpha'' = {||}"
proof -
  have 1: "list_ok sorted_list_of_fset" by (rule list_ok_sorted)
  have 2: "tasks (run sorted_list_of_fset
        [Connect 1 alpha, Accepted 1 None, Connect 2 alpha, Accepted 2 None, Connect 3 alpha] init) 3
       = Some (Accepting ''alpha'')" by code_simp
  have 3: "members (rooms (run sorted_list_of_fset
        [Connect 1 alpha, Accepted 1 None, Connect 2 alpha, Accepted 2 None, Connect 3 alpha] init))
        ''alpha'' = {|1, 2|}" by code_simp
  from join_then_leave_restores_members[OF 1 2, of WebSocketDisconnect] 3
  have 4: "members (rooms (run sorted_list_of_fset [Accepted 3 None, Received 3 (Inl WebSocketDisconnect)]
        (run sorted_list_of_fset
          [Connect 1 alpha, Accepted 1 None, Connect 2 alpha, Accepted 2 None, Connect 3 alpha] init)))
        ''alpha'' = {|1, 2|}" by metis
  have 5: "tasks (run sorted_list_of_fset [Connect 1 alpha] init) 1 = Some (Accepting ''alpha'')"
    by code_simp
  have 6: "members (rooms (run sorted_list_of_fset [Connect 1 alpha] init)) ''alpha'' = {||}"
    by code_simp
  from join_then_leave_restores_members[OF 1 5, of WebSocketDisconnect] 6
  have 7: "members (rooms (run sorted_list_of_fset [Accepted 1 None, Received 1 (Inl WebSocketDisconnect)]
        (run sorted_list_of_fset [Connect 1 alpha] init))) ''alpha'' = {||}" by metis
  from 1 2 3 4 5 6 7 show ?thesis by blast
qed

section \<open>Rooms are isolated\<close>

text \<open>
  Claim C4.  Start the program (empty dictionary, no connection) and let any schedule
  of events run.  If the trace shows that \<open>a\<close> joined room \<open>r2\<close> and \<open>b\<close> joined a
  different room \<open>r1\<close>, then \<open>b\<close> never joined \<open>r2\<close> (a connection joins one room only);
  the coroutine of \<open>a\<close> has never called \<^verbatim>\<open>b.send_text\<close>, with any text and any outcome;
  \<open>b\<close> is not among the peers of a pass that \<open>a\<close> would start now; and what the
  dictionary holds for room \<open>r1\<close> has no influence on the peers of a pass in room \<open>r2\<close>.
\<close>

theorem rooms_are_isolated:
  assumes "list_ok L"
    and "Joined a r2 \<in> set (trace (run L evs init))"
    and "Joined b r1 \<in> set (trace (run L evs init))"
    and "r1 \<noteq> r2"
  shows "Joined b r2 \<notin> set (trace (run L evs init))
       \<and> Send a b msg r \<notin> set (trace (run L evs init))
       \<and> b \<notin> set (targets L (rooms (run L evs init)) r2 a)
       \<and> targets L (reg(r1 \<mapsto> S)) r2 a = targets L reg r2 a"
proof -
  let ?s = "run L evs init"
  have c: "consistent ?s" using assms(1) by (rule consistent_reachable)
  have ja: "joined ?s a r2" and jb: "joined ?s b r1" using assms(2,3) by (simp_all add: joined_def)
  have one: "\<And>c x y. joined ?s c x \<Longrightarrow> joined ?s c y \<Longrightarrow> x = y"
    using c unfolding consistent_def by blast
  have 0: "Joined b r2 \<notin> set (trace ?s)"
  proof
    assume "Joined b r2 \<in> set (trace ?s)"
    then have "joined ?s b r2" by (simp add: joined_def)
    with jb one have "r1 = r2" by blast
    with assms(4) show False by simp
  qed
  have 1: "Send a b msg r \<notin> set (trace ?s)"
  proof
    assume "Send a b msg r \<in> set (trace ?s)"
    with c obtain room where "joined ?s a room" and "joined ?s b room"
      unfolding consistent_def by blast
    with ja jb one have "r1 = r2" by blast
    with assms(4) show False by simp
  qed
  have 2: "b \<notin> set (targets L (rooms ?s) r2 a)"
  proof
    assume "b \<in> set (targets L (rooms ?s) r2 a)"
    with assms(1) have "b |\<in>| members (rooms ?s) r2" by (simp add: set_targets)
    with c have "joined ?s b r2" unfolding consistent_def by blast
    with jb one have "r1 = r2" by blast
    with assms(4) show False by simp
  qed
  from 0 1 2 assms(4) show ?thesis by (simp add: targets_other_room)
qed

theorem rooms_are_isolated_witness:
  "list_ok sorted_list_of_fset
   \<and> Joined 1 ''alpha'' \<in> set (trace (run sorted_list_of_fset two_rooms init))
   \<and> Joined 2 ''beta'' \<in> set (trace (run sorted_list_of_fset two_rooms init))
   \<and> ''beta'' \<noteq> ''alpha''
   \<and> Send 1 3 ''hello'' None \<in> set (trace (run sorted_list_of_fset two_rooms init))
   \<and> Send 1 2 ''hello'' None \<notin> set (trace (run sorted_list_of_fset two_rooms init))
   \<and> 2 \<notin> set (targets sorted_list_of_fset (rooms (run sorted_list_of_fset two_rooms init)) ''alpha'' 1)"
proof -
  have 1: "list_ok sorted_list_of_fset" by (rule list_ok_sorted)
  have 2: "Joined 1 ''alpha'' \<in> set (trace (run sorted_list_of_fset two_rooms init))" by code_simp
  have 3: "Joined 2 ''beta'' \<in> set (trace (run sorted_list_of_fset two_rooms init))" by code_simp
  have 4: "''beta'' \<noteq> ''alpha''" by simp
  have 5: "Send 1 3 ''hello'' None \<in> set (trace (run sorted_list_of_fset two_rooms init))" by code_simp
  from rooms_are_isolated[OF 1 2 3 4, of "''hello''" None] 1 2 3 4 5 show ?thesis by blast
qed

section \<open>The default room\<close>

text \<open>
  Claim C9.  Two new connections \<open>x\<close> and \<open>y\<close> whose query parameters have no \<^verbatim>\<open>room\<close>
  entry both resolve the room name \<^verbatim>\<open>default\<close> in line 27.  Once both are accepted,
  both coroutines wait for messages in that room and both are members of it; a message
  that \<open>x\<close> then receives from its client is sent to \<open>y\<close> exactly once, and a message
  from \<open>y\<close> is sent to \<open>x\<close> exactly once (here with every send of the pass returning
  normally).
\<close>

theorem default_room_is_shared:
  assumes ok: "list_ok L"
    and x: "tasks s x = None" and y: "tasks s y = None" and xy: "x \<noteq> y"
    and px: "px ''room'' = None" and py: "py ''room'' = None"
    and s1: "s1 = run L [Connect x px, Accepted x None, Connect y py, Accepted y None] s"
  shows "room_of_params px = ''default'' \<and> room_of_params py = ''default''
       \<and> tasks s1 x = Some (Receiving ''default'') \<and> tasks s1 y = Some (Receiving ''default'')
       \<and> x |\<in>| members (rooms s1) ''default'' \<and> y |\<in>| members (rooms s1) ''default''
       \<and> (\<exists>new. trace_of x (run L (Received x (Inr msg) #
                     replicate (length (targets L (rooms s1) ''default'' x)) (Sent x None)) s1)
                   = trace_of x s1 @ new
              \<and> filter (is_send_to y) new = [Send x y msg None])
       \<and> (\<exists>new. trace_of y (run L (Received y (Inr msg) #
                     replicate (length (targets L (rooms s1) ''default'' y)) (Sent y None)) s1)
                   = trace_of y s1 @ new
              \<and> filter (is_send_to x) new = [Send y x msg None])"
proof -
  have rx: "room_of_params px = ''default''" using px by (simp add: room_of_params_def)
  have ry: "room_of_params py = ''default''" using py by (simp add: room_of_params_def)
  let ?a = "step L (Connect x px) s"
  let ?b = "step L (Accepted x None) ?a"
  let ?c = "step L (Connect y py) ?b"
  let ?d = "step L (Accepted y None) ?c"
  have s1d: "s1 = ?d" by (simp add: s1)
  have ta: "tasks ?a x = Some (Accepting ''default'')" using x rx by (simp add: step_Connect)
  have tb: "tasks ?b x = Some (Receiving ''default'')" using ta by (simp add: step_Accepted_ok)
  have mb: "x |\<in>| members (rooms ?b) ''default''"
    using ta by (simp add: step_Accepted_ok members_def)
  have yb: "tasks ?b y = None" using y xy by (simp add: step_other_task)
  have tc: "tasks ?c y = Some (Accepting ''default'')" using yb ry by (simp add: step_Connect)
  have mc: "x |\<in>| members (rooms ?c) ''default''" using mb yb by (simp add: step_Connect)
  have td: "tasks ?d y = Some (Receiving ''default'')" using tc by (simp add: step_Accepted_ok)
  have xd: "tasks ?d x = Some (Receiving ''default'')"
    using tb xy by (simp add: step_other_task)
  have md: "x |\<in>| members (rooms ?d) ''default''" "y |\<in>| members (rooms ?d) ''default''"
    using tc mc by (simp_all add: step_Accepted_ok members_def)
  have pass: "\<exists>new. trace_of a (run L (Received a (Inr msg) #
                     replicate (length (targets L (rooms ?d) ''default'' a)) (Sent a None)) ?d)
                   = trace_of a ?d @ new
              \<and> filter (is_send_to b) new = [Send a b msg None]"
    if t: "tasks ?d a = Some (Receiving ''default'')" and m: "b |\<in>| members (rooms ?d) ''default''"
      and ab: "a \<noteq> b" for a b
  proof -
    let ?n = "length (targets L (rooms ?d) ''default'' a)"
    have f: "filter (\<lambda>ev. owner ev = a) (replicate ?n (Sent a None)) = map (Sent a) (replicate ?n None)"
      by (simp add: map_replicate)
    have l: "length (replicate ?n (None :: exn option)) = ?n" by simp
    from pass_reaches_member[OF ok t m ab f l, of msg] show ?thesis by auto
  qed
  from pass[OF xd md(2) xy] pass[OF td md(1) xy[symmetric]] rx ry xd td md
  show ?thesis unfolding s1d by blast
qed

theorem default_room_is_shared_witness:
  "list_ok sorted_list_of_fset \<and> tasks init 1 = None \<and> tasks init 2 = None \<and> (1::conn) \<noteq> 2
   \<and> (Map.empty :: string \<rightharpoonup> string) ''room'' = None
   \<and> default_two = run sorted_list_of_fset
        [Connect 1 Map.empty, Accepted 1 None, Connect 2 Map.empty, Accepted 2 None] init
   \<and> tasks default_two 1 = Some (Receiving ''default'')
   \<and> tasks default_two 2 = Some (Receiving ''default'')
   \<and> 1 |\<in>| members (rooms default_two) ''default''
   \<and> 2 |\<in>| members (rooms default_two) ''default''
   \<and> (\<exists>new. trace_of 1 (run sorted_list_of_fset [Received 1 (Inr ''offer''), Sent 1 None] default_two)
               = trace_of 1 default_two @ new
          \<and> filter (is_send_to 2) new = [Send 1 2 ''offer'' None])
   \<and> (\<exists>new. trace_of 2 (run sorted_list_of_fset [Received 2 (Inr ''offer''), Sent 2 None] default_two)
               = trace_of 2 default_two @ new
          \<and> filter (is_send_to 1) new = [Send 2 1 ''offer'' None])"
proof -
  have 1: "list_ok sorted_list_of_fset" by (rule list_ok_sorted)
  have 2: "tasks init 1 = None" "tasks init 2 = None" by (simp_all add: init_def)
  have 3: "(1::conn) \<noteq> 2" by simp
  have 4: "(Map.empty :: string \<rightharpoonup> string) ''room'' = None" by simp
  have 5: "default_two = run sorted_list_of_fset
        [Connect 1 Map.empty, Accepted 1 None, Connect 2 Map.empty, Accepted 2 None] init"
    by (simp only: default_two_def)
  have t1: "targets sorted_list_of_fset (rooms default_two) ''default'' 1 = [2]" by code_simp
  have t2: "targets sorted_list_of_fset (rooms default_two) ''default'' 2 = [1]" by code_simp
  from default_room_is_shared[OF 1 2 3 4 4 5, of "''offer''"] t1 t2 1 2 3 4 5
  show ?thesis by simp
qed

end
